theory Spec2Isabelle
  imports Main "HOL-Library.Word"
begin

section \<open>The capped connection pool of \<open>connpool/connpool.go\<close>\<close>

text \<open>
  The development follows the Go source function by function. Shared memory (the
  registry of the \<open>Dialer\<close> and the pools it points to) is an explicit store; the
  transport underneath (the raw dial and the raw close) is an external collaborator
  whose state is an arbitrary type \<open>'w\<close>; the scheduler's choices (which case of a
  \<open>select\<close> fires, which goroutine is parked on a channel) are parameters.
\<close>

subsection \<open>Integers\<close>

text \<open>
  Go's \<open>int\<close> on the 64-bit targets: a 64-bit two's complement word. \<open>++\<close> and
  \<open>--\<close> wrap around; the comparisons of the source are the signed ones
  (\<open><s\<close>, \<open>\<le>s\<close>).
\<close>

type_synonym go_int = "64 word"

definition DefaultMaxConnsPerHost :: go_int where
  "DefaultMaxConnsPerHost = 10"

subsection \<open>Errors\<close>

text \<open>\<open>type ErrTimeout struct{}\<close> and its three methods.\<close>

datatype ErrTimeout = ErrTimeout

definition Error :: "ErrTimeout \<Rightarrow> string" where
  "Error err = ''dial timeout error''"

definition Temporary :: "ErrTimeout \<Rightarrow> bool" where
  "Temporary err = True"

definition Timeout :: "ErrTimeout \<Rightarrow> bool" where
  "Timeout err = True"

text \<open>
  The values of Go's \<open>error\<close> interface that occur here: an \<open>ErrTimeout\<close>, or an
  error of the transport (opaque to the pool, identified by its message).
\<close>

datatype error = TimeoutError ErrTimeout | TransportError string

subsection \<open>Data\<close>

text \<open>\<open>netAndAddr\<close>, the key of the registry: compared structurally.\<close>

datatype netAndAddr = NetAndAddr string string

text \<open>
  \<open>pool\<close>: \<open>connCh\<close> is an unbuffered channel, which stores nothing; the field
  holds the identity of the channel. \<open>tokens\<close> is the cap minus the number of open
  connections.
\<close>

record pool =
  connCh :: nat
  tokens :: go_int

text \<open>
  \<open>conn\<close>: the raw connection of the transport (a handle) and a pointer to the
  owning pool (an address of the store).
\<close>

record conn =
  Conn :: nat
  pool :: nat

text \<open>
  \<open>Dialer\<close>: \<open>conns\<close> is \<open>None\<close> for the nil map. The embedded \<open>net.Dialer\<close> is
  the transport: its \<open>Dial\<close> is passed to the functions below as a \<open>DialFunc\<close>,
  its \<open>Timeout\<close> decides when the deadline case of the \<open>select\<close> fires.
\<close>

record Dialer =
  conns :: "(netAndAddr \<rightharpoonup> nat) option"
  MaxConnPerHost :: go_int

text \<open>
  The store: the \<open>Dialer\<close>, the pools by address, and the next free address
  (\<open>&pool{...}\<close> allocates there).
\<close>

record mem =
  dialer :: Dialer
  heap :: "nat \<Rightarrow> pool"
  next_addr :: nat

text \<open>
  \<open>DialFunc\<close>: the raw dial yields a connection or an error (as \<open>net.Dialer.Dial\<close>
  does: a nil connection with every error) and changes the transport. The raw
  \<open>Close\<close> of a connection yields an error or nil.
\<close>

type_synonym 'w DialFunc = "string \<Rightarrow> string \<Rightarrow> 'w \<Rightarrow> (error + nat) \<times> 'w"

type_synonym 'w CloseFunc = "nat \<Rightarrow> 'w \<Rightarrow> error option \<times> 'w"

subsection \<open>The token bucket\<close>

text \<open>\<open>getToken\<close> and \<open>putToken\<close>: the bodies, run under the pool's lock.\<close>

definition getToken :: "pool \<Rightarrow> go_int \<times> pool" where
  "getToken p =
     (let t = tokens p
      in (t, if 0 <s t then p\<lparr>tokens := tokens p - 1\<rparr> else p))"

definition putToken :: "pool \<Rightarrow> go_int \<times> pool" where
  "putToken p =
     (let t = tokens p
      in (t, p\<lparr>tokens := tokens p + 1\<rparr>))"

text \<open>A method call through a pool pointer: run the body on the pool stored there.\<close>

definition call :: "nat \<Rightarrow> (pool \<Rightarrow> 'a \<times> pool) \<Rightarrow> mem \<Rightarrow> 'a \<times> mem" where
  "call p f m =
     (let (r, v) = f (heap m p)
      in (r, m\<lparr>heap := (heap m)(p := v)\<rparr>))"

subsection \<open>The registry: \<open>Dialer.pool\<close>\<close>

definition Dialer_pool :: "string \<Rightarrow> string \<Rightarrow> mem \<Rightarrow> nat \<times> mem" where
  "Dialer_pool network address m =
     (let d = dialer m;
          max = (if MaxConnPerHost d = 0 then DefaultMaxConnsPerHost
                 else MaxConnPerHost d);
          cs = (case conns d of None \<Rightarrow> Map.empty | Some c \<Rightarrow> c)
      in case cs (NetAndAddr network address) of
           Some p \<Rightarrow> (p, m\<lparr>dialer := d\<lparr>conns := Some cs\<rparr>\<rparr>)
         | None \<Rightarrow>
             (let p = next_addr m
              in (p, m\<lparr>dialer :=
                         d\<lparr>conns := Some (cs(NetAndAddr network address \<mapsto> p))\<rparr>,
                       heap := (heap m)(p := \<lparr>connCh = p, tokens = max\<rparr>),
                       next_addr := Suc p\<rparr>)))"

subsection \<open>\<open>pool.maybeDial\<close>\<close>

text \<open>
  The pair returned is (connection, error), \<open>None\<close> for nil. Where the raw dial
  fails the source returns \<open>c, err\<close> with the \<open>c\<close> of the raw dial, which is nil
  then.
\<close>

definition maybeDial ::
  "nat \<Rightarrow> string \<Rightarrow> string \<Rightarrow> 'w DialFunc \<Rightarrow> mem \<times> 'w
     \<Rightarrow> (conn option \<times> error option) \<times> (mem \<times> 'w)" where
  "maybeDial p network address d s =
     (let (m, w) = s;
          (t, m1) = call p getToken m
      in if t \<noteq> 0 then
           (case d network address w of
              (Inl err, w1) \<Rightarrow>
                (let (u, m2) = call p putToken m1
                 in ((None, Some err), (m2, w1)))
            | (Inr c, w1) \<Rightarrow>
                ((Some \<lparr>Conn = c, pool = p\<rparr>, None), (m1, w1)))
         else ((None, None), (m1, w)))"

subsection \<open>\<open>conn.Close\<close>\<close>

text \<open>
  The \<open>select\<close> of \<open>Close\<close> sends on the unbuffered channel if a goroutine is parked
  receiving on it, and takes the default case otherwise. \<open>recv\<close> is that goroutine,
  if there is one. The result is the error returned and the delivery made, if any.
\<close>

definition Close ::
  "conn \<Rightarrow> nat option \<Rightarrow> 'w CloseFunc \<Rightarrow> mem \<times> 'w
     \<Rightarrow> (error option \<times> (nat \<times> conn) option) \<times> (mem \<times> 'w)" where
  "Close c recv rawClose s =
     (let (m, w) = s
      in case recv of
           Some g \<Rightarrow> ((None, Some (g, c)), (m, w))
         | None \<Rightarrow>
             (let (u, m1) = call (pool c) putToken m;
                  (err, w1) = rawClose (Conn c) w
              in ((err, None), (m1, w1))))"

subsection \<open>\<open>Dialer.Dial\<close>\<close>

text \<open>
  One round of the \<open>select\<close> in the loop of \<open>Dial\<close> fires one of its three cases:
  a connection arrives on \<open>pool.connCh\<close>, the 10 ms timer fires, or the deadline
  \<open>toch\<close> fires. The schedule of a call is the list of the cases that fire, in
  order; the loop consumes it. A call that is still in the loop when the schedule
  ends has not returned: its value is \<open>None\<close>.
\<close>

datatype select_case = RecvConnCh conn | After10ms | Toch

fun Dial_loop ::
  "nat \<Rightarrow> string \<Rightarrow> string \<Rightarrow> 'w DialFunc \<Rightarrow> select_case list \<Rightarrow> mem \<times> 'w
     \<Rightarrow> ((conn option \<times> error option) \<times> select_case list \<times> (mem \<times> 'w)) option" where
  "Dial_loop p network address d [] s = None"
| "Dial_loop p network address d (RecvConnCh c # evs) s = Some ((Some c, None), evs, s)"
| "Dial_loop p network address d (After10ms # evs) s =
     (let ((c, err), s1) = maybeDial p network address d s
      in if err \<noteq> None then Some ((None, err), evs, s1)
         else if c \<noteq> None then Some ((c, None), evs, s1)
         else Dial_loop p network address d evs s1)"
| "Dial_loop p network address d (Toch # evs) s =
     Some ((None, Some (TimeoutError ErrTimeout)), evs, s)"

definition Dial ::
  "string \<Rightarrow> string \<Rightarrow> 'w DialFunc \<Rightarrow> select_case list \<Rightarrow> mem \<times> 'w
     \<Rightarrow> ((conn option \<times> error option) \<times> select_case list \<times> (mem \<times> 'w)) option" where
  "Dial network address d evs s =
     (let (m, w) = s;
          (p, m1) = Dialer_pool network address m;
          ((c, err), s1) = maybeDial p network address d (m1, w)
      in if err \<noteq> None then Some ((None, err), evs, s1)
         else if c \<noteq> None then Some ((c, None), evs, s1)
         else Dial_loop p network address d evs s1)"

subsection \<open>The initial store\<close>

text \<open>
  The store of a program that has declared a \<open>Dialer\<close> with the given
  \<open>MaxConnPerHost\<close> and nothing else: the map is nil and no pool is allocated
  (the unallocated addresses read as the zero pool).
\<close>

definition new_mem :: "go_int \<Rightarrow> mem" where
  "new_mem mx =
     \<lparr>dialer = \<lparr>conns = None, MaxConnPerHost = mx\<rparr>,
      heap = (\<lambda>a. \<lparr>connCh = 0, tokens = 0\<rparr>),
      next_addr = 0\<rparr>"

subsection \<open>Reading the registry\<close>

text \<open>\<open>d.conns[k]\<close>: a nil map has no entry.\<close>

definition lookup_conns :: "mem \<Rightarrow> netAndAddr \<Rightarrow> nat option" where
  "lookup_conns m k = (case conns (dialer m) of None \<Rightarrow> None | Some cs \<Rightarrow> cs k)"

text \<open>A sequence of calls of \<open>Dialer.pool\<close>, with any keys.\<close>

fun pool_calls :: "(string \<times> string) list \<Rightarrow> mem \<Rightarrow> mem" where
  "pool_calls [] m = m"
| "pool_calls ((network, address) # ks) m =
     pool_calls ks (snd (Dialer_pool network address m))"

subsection \<open>A transport to run the code on\<close>

text \<open>
  A transport that counts the dials made and lists the handles closed. Its dial
  succeeds with a fresh handle (\<open>dial_ok\<close>) or is refused (\<open>dial_refused\<close>); its
  close succeeds (\<open>close_ok\<close>) or fails (\<open>close_broken\<close>).
\<close>

record transport =
  dialed :: nat
  closed :: "nat list"

definition transport0 :: transport where
  "transport0 = \<lparr>dialed = 0, closed = []\<rparr>"

definition dial_ok :: "transport DialFunc" where
  "dial_ok network address w = (Inr (dialed w), w\<lparr>dialed := Suc (dialed w)\<rparr>)"

definition dial_refused :: "transport DialFunc" where
  "dial_refused network address w =
     (Inl (TransportError ''connection refused''), w\<lparr>dialed := Suc (dialed w)\<rparr>)"

definition close_ok :: "transport CloseFunc" where
  "close_ok c w = (None, w\<lparr>closed := closed w @ [c]\<rparr>)"

definition close_broken :: "transport CloseFunc" where
  "close_broken c w = (Some (TransportError ''broken pipe''), w\<lparr>closed := closed w @ [c]\<rparr>)"

text \<open>
  A store with one destination, \<open>("tcp", "example.org:80")\<close>, registered at
  address 0: its pool holds \<open>t\<close> tokens, the \<open>Dialer\<close> has \<open>MaxConnPerHost = mx\<close>.
\<close>

definition one_pool :: "go_int \<Rightarrow> go_int \<Rightarrow> mem" where
  "one_pool mx t =
     \<lparr>dialer = \<lparr>conns = Some [NetAndAddr ''tcp'' ''example.org:80'' \<mapsto> 0],
                MaxConnPerHost = mx\<rparr>,
      heap = (\<lambda>a. \<lparr>connCh = 0, tokens = 0\<rparr>)(0 := \<lparr>connCh = 0, tokens = t\<rparr>),
      next_addr = 1\<rparr>"

section \<open>Goroutines: the interleavings of \<open>Dial\<close> and \<open>Close\<close>\<close>

text \<open>
  Any number of goroutines call \<open>Dial\<close> and \<open>Close\<close> at the same time. What one
  goroutine does without being interrupted is what the source runs under a lock
  (\<open>Dialer.pool\<close>, \<open>getToken\<close>, \<open>putToken\<close>) or as one channel operation (the
  \<open>select\<close>); the raw dial and the raw close are calls to the transport that
  return later. A goroutine is at one of these places:
  \<^item> \<open>AtGetToken p\<close>: in \<open>maybeDial\<close>, about to call \<open>p.getToken()\<close>;
  \<^item> \<open>InDial p\<close>: \<open>getToken\<close> was not 0, the raw dial \<open>d(network, addr)\<close> is running;
  \<^item> \<open>AtPutToken p err\<close>: the raw dial failed, about to call \<open>p.putToken()\<close>;
  \<^item> \<open>AtSelect p\<close>: \<open>maybeDial\<close> has returned no connection and no error; on the way
    to the \<open>select\<close> of the loop of \<open>Dial\<close>, and not yet receiving;
  \<^item> \<open>InSelect p\<close>: parked in the \<open>select\<close>, so receiving on \<open>p.connCh\<close>;
  \<^item> \<open>DialDone r\<close>: \<open>Dial\<close> has returned \<open>r\<close>;
  \<^item> \<open>AtRelease c\<close>: \<open>c.Close()\<close> took the default case, about to call
    \<open>c.pool.putToken()\<close>;
  \<^item> \<open>InRawClose c\<close>: the raw close \<open>c.Conn.Close()\<close> is running;
  \<^item> \<open>CloseDone err\<close>: \<open>Close\<close> has returned \<open>err\<close>.
\<close>

datatype pc =
    AtGetToken nat
  | InDial nat
  | AtPutToken nat error
  | AtSelect nat
  | InSelect nat
  | DialDone "conn option \<times> error option"
  | AtRelease conn
  | InRawClose conn
  | CloseDone "error option"

text \<open>
  The system: the store, the goroutines (a goroutine is its index in the list), and
  the connections that callers hold: returned by a \<open>Dial\<close> and not passed to
  \<open>Close\<close> since.
\<close>

record sys =
  store :: mem
  procs :: "pc list"
  held :: "conn list"

text \<open>
  What can happen next: a new goroutine calls \<open>Dial\<close> or \<open>Close\<close>, a goroutine runs
  its next atomic piece or parks in its \<open>select\<close>, a timer fires, or the transport
  returns. \<open>CallClose c recv\<close> carries the goroutine \<open>recv\<close> that the send of the
  \<open>select\<close> reaches, if any.
\<close>

datatype action =
    CallDial string string
  | GetToken nat
  | DialReturns nat "error + nat"
  | PutToken nat
  | Park nat
  | TimerFires nat
  | DeadlineFires nat
  | CallClose conn "nat option"
  | RawCloseReturns nat "error option"

definition at :: "sys \<Rightarrow> nat \<Rightarrow> pc option" where
  "at s g = (if g < length (procs s) then Some (procs s ! g) else None)"

text \<open>
  One step. An action that is not possible in a state (the goroutine is elsewhere;
  a send to a goroutine that is not parked receiving on that channel) leaves the
  state as it is. Between the return of \<open>getToken\<close> and the \<open>select\<close> a goroutine is
  not receiving, so a \<open>Close\<close> at that moment takes the default case. The timers can
  fire before the goroutine has parked. The default case of \<open>Close\<close> is admitted in
  every state: Go takes it only when no goroutine is receiving, and nothing below
  relies on that, so no run of the code is left out.
\<close>

fun step :: "sys \<Rightarrow> action \<Rightarrow> sys" where
  "step s (CallDial network address) =
     (let (p, m) = Dialer_pool network address (store s)
      in s\<lparr>store := m, procs := procs s @ [AtGetToken p]\<rparr>)"
| "step s (GetToken g) =
     (case at s g of
        Some (AtGetToken p) \<Rightarrow>
          (let (t, m) = call p getToken (store s)
           in s\<lparr>store := m,
                procs := (procs s)[g := if t \<noteq> 0 then InDial p else AtSelect p]\<rparr>)
      | _ \<Rightarrow> s)"
| "step s (DialReturns g r) =
     (case at s g of
        Some (InDial p) \<Rightarrow>
          (case r of
             Inl err \<Rightarrow> s\<lparr>procs := (procs s)[g := AtPutToken p err]\<rparr>
           | Inr c \<Rightarrow>
               s\<lparr>procs := (procs s)[g := DialDone (Some \<lparr>Conn = c, pool = p\<rparr>, None)],
                 held := \<lparr>Conn = c, pool = p\<rparr> # held s\<rparr>)
      | _ \<Rightarrow> s)"
| "step s (PutToken g) =
     (case at s g of
        Some (AtPutToken p err) \<Rightarrow>
          (let (u, m) = call p putToken (store s)
           in s\<lparr>store := m, procs := (procs s)[g := DialDone (None, Some err)]\<rparr>)
      | Some (AtRelease c) \<Rightarrow>
          (let (u, m) = call (pool c) putToken (store s)
           in s\<lparr>store := m, procs := (procs s)[g := InRawClose c]\<rparr>)
      | _ \<Rightarrow> s)"
| "step s (Park g) =
     (case at s g of
        Some (AtSelect p) \<Rightarrow> s\<lparr>procs := (procs s)[g := InSelect p]\<rparr>
      | _ \<Rightarrow> s)"
| "step s (TimerFires g) =
     (case at s g of
        Some (AtSelect p) \<Rightarrow> s\<lparr>procs := (procs s)[g := AtGetToken p]\<rparr>
      | Some (InSelect p) \<Rightarrow> s\<lparr>procs := (procs s)[g := AtGetToken p]\<rparr>
      | _ \<Rightarrow> s)"
| "step s (DeadlineFires g) =
     (case at s g of
        Some (AtSelect p) \<Rightarrow>
          s\<lparr>procs := (procs s)[g := DialDone (None, Some (TimeoutError ErrTimeout))]\<rparr>
      | Some (InSelect p) \<Rightarrow>
          s\<lparr>procs := (procs s)[g := DialDone (None, Some (TimeoutError ErrTimeout))]\<rparr>
      | _ \<Rightarrow> s)"
| "step s (CallClose c recv) =
     (case recv of
        Some g \<Rightarrow>
          (if at s g = Some (InSelect (pool c))
           then s\<lparr>procs := (procs s)[g := DialDone (Some c, None)] @ [CloseDone None],
                  held := c # remove1 c (held s)\<rparr>
           else s)
      | None \<Rightarrow> s\<lparr>procs := procs s @ [AtRelease c], held := remove1 c (held s)\<rparr>)"
| "step s (RawCloseReturns g err) =
     (case at s g of
        Some (InRawClose c) \<Rightarrow> s\<lparr>procs := (procs s)[g := CloseDone err]\<rparr>
      | _ \<Rightarrow> s)"

fun run :: "sys \<Rightarrow> action list \<Rightarrow> sys" where
  "run s [] = s"
| "run s (a # as) = run (step s a) as"

text \<open>
  The discipline of the callers: \<open>Close\<close> is called on connections that are held,
  so each connection that a \<open>Dial\<close> returned is closed at most once by the caller
  that got it.
\<close>

fun closes_held :: "sys \<Rightarrow> action list \<Rightarrow> bool" where
  "closes_held s [] = True"
| "closes_held s (CallClose c recv # as) =
     (c \<in> set (held s) \<and> closes_held (step s (CallClose c recv)) as)"
| "closes_held s (a # as) = closes_held (step s a) as"

text \<open>The start: a \<open>Dialer\<close> with its \<open>MaxConnPerHost\<close>, no goroutine, no connection.\<close>

definition init :: "go_int \<Rightarrow> sys" where
  "init mx = \<lparr>store = new_mem mx, procs = [], held = []\<rparr>"

subsection \<open>Accounting\<close>

text \<open>
  \<open>weight p x\<close> is 1 when the goroutine at \<open>x\<close> holds a token of the pool \<open>p\<close>
  that it will give back or turn into a connection; \<open>ptr x\<close> is the pool pointer in
  its frame. \<open>reserved\<close> counts the tokens so held, \<open>open_conns\<close> the connections of
  a pool that callers hold. \<open>effective_max\<close> is the \<open>max\<close> of \<open>Dialer.pool\<close>.
\<close>

fun weight :: "nat \<Rightarrow> pc \<Rightarrow> int" where
  "weight p (InDial q) = (if q = p then 1 else 0)"
| "weight p (AtPutToken q err) = (if q = p then 1 else 0)"
| "weight p (AtRelease c) = (if pool c = p then 1 else 0)"
| "weight p other = 0"

fun ptr :: "pc \<Rightarrow> nat option" where
  "ptr (AtGetToken p) = Some p"
| "ptr (InDial p) = Some p"
| "ptr (AtPutToken p err) = Some p"
| "ptr (AtSelect p) = Some p"
| "ptr (InSelect p) = Some p"
| "ptr (AtRelease c) = Some (pool c)"
| "ptr other = None"

definition reserved :: "nat \<Rightarrow> pc list \<Rightarrow> int" where
  "reserved p ps = sum_list (map (weight p) ps)"

definition open_conns :: "nat \<Rightarrow> conn list \<Rightarrow> int" where
  "open_conns p cs = int (length (filter (\<lambda>c. pool c = p) cs))"

definition effective_max :: "go_int \<Rightarrow> go_int" where
  "effective_max mx = (if mx = 0 then DefaultMaxConnsPerHost else mx)"

definition pool_inv :: "go_int \<Rightarrow> sys \<Rightarrow> bool" where
  "pool_inv mx s \<longleftrightarrow>
     MaxConnPerHost (dialer (store s)) = mx
     \<and> (\<forall>k p. lookup_conns (store s) k = Some p \<longrightarrow> p < next_addr (store s))
     \<and> (\<forall>x \<in> set (procs s). \<forall>p. ptr x = Some p \<longrightarrow> p < next_addr (store s))
     \<and> (\<forall>c \<in> set (held s). pool c < next_addr (store s))
     \<and> (\<forall>p < next_addr (store s).
           0 \<le> sint (tokens (heap (store s) p))
           \<and> sint (tokens (heap (store s) p)) + reserved p (procs s) + open_conns p (held s)
               = sint (effective_max mx))"

subsection \<open>Three runs\<close>

text \<open>
  With a cap of 1: a \<open>Dial\<close> gets the token and a connection; a second \<open>Dial\<close> finds
  no token and parks; the first caller closes, and the connection goes to the second;
  the second caller closes with nobody waiting, so the token is released and the raw
  connection closed.
\<close>

definition example_trace :: "action list" where
  "example_trace =
     [CallDial ''tcp'' ''example.org:80'', GetToken 0, DialReturns 0 (Inr 7),
      CallDial ''tcp'' ''example.org:80'', GetToken 1, Park 1,
      CallClose \<lparr>Conn = 7, pool = 0\<rparr> (Some 1),
      CallClose \<lparr>Conn = 7, pool = 0\<rparr> None, PutToken 3, RawCloseReturns 3 None]"

text \<open>
  The same, but the first caller closes after the second \<open>Dial\<close> found no token
  and before it has reached its \<open>select\<close>: nobody is receiving, the \<open>Close\<close> takes
  the default case and releases the token, and the second \<open>Dial\<close> is still on its way
  to the \<open>select\<close>.
\<close>

definition missed_handoff_trace :: "action list" where
  "missed_handoff_trace =
     [CallDial ''tcp'' ''example.org:80'', GetToken 0, DialReturns 0 (Inr 7),
      CallDial ''tcp'' ''example.org:80'', GetToken 1,
      CallClose \<lparr>Conn = 7, pool = 0\<rparr> None, PutToken 2]"

text \<open>A caller that closes its connection twice.\<close>

definition double_close_trace :: "action list" where
  "double_close_trace =
     [CallDial ''tcp'' ''example.org:80'', GetToken 0, DialReturns 0 (Inr 7),
      CallClose \<lparr>Conn = 7, pool = 0\<rparr> None, PutToken 1,
      CallClose \<lparr>Conn = 7, pool = 0\<rparr> None, PutToken 2]"

section \<open>Basic facts\<close>

subsection \<open>Method calls on a stored pool, and \<open>maybeDial\<close> by the sign of the count\<close>

lemma sless_nonzero: "0 <s (t::go_int) \<Longrightarrow> t \<noteq> 0"
  by (auto simp: word_sless_alt)

lemma call_getToken_pos:
  "0 <s tokens (heap m p) \<Longrightarrow>
   call p getToken m =
     (tokens (heap m p), m\<lparr>heap := (heap m)(p := (heap m p)\<lparr>tokens := tokens (heap m p) - 1\<rparr>)\<rparr>)"
  by (simp add: call_def getToken_def Let_def)

lemma call_getToken_nonpos:
  "\<not> 0 <s tokens (heap m p) \<Longrightarrow> call p getToken m = (tokens (heap m p), m)"
  by (simp add: call_def getToken_def Let_def)

lemma call_putToken:
  "call p putToken m =
     (tokens (heap m p), m\<lparr>heap := (heap m)(p := (heap m p)\<lparr>tokens := tokens (heap m p) + 1\<rparr>)\<rparr>)"
  by (simp add: call_def putToken_def Let_def)

lemma maybeDial_fail_pos:
  assumes "0 <s tokens (heap m p)" and "d network address w = (Inl e, w1)"
  shows "maybeDial p network address d (m, w) = ((None, Some e), (m, w1))"
  using assms sless_nonzero [OF assms(1)]
  by (simp add: maybeDial_def call_getToken_pos call_putToken)

lemma maybeDial_ok_pos:
  assumes "0 <s tokens (heap m p)" and "d network address w = (Inr c, w1)"
  shows "maybeDial p network address d (m, w) =
    ((Some \<lparr>Conn = c, pool = p\<rparr>, None),
     (m\<lparr>heap := (heap m)(p := (heap m p)\<lparr>tokens := tokens (heap m p) - 1\<rparr>)\<rparr>, w1))"
  using assms sless_nonzero [OF assms(1)]
  by (simp add: maybeDial_def call_getToken_pos)

lemma maybeDial_zero:
  assumes "tokens (heap m p) = 0"
  shows "maybeDial p network address d (m, w) = ((None, None), (m, w))"
  using assms
  by (simp add: maybeDial_def call_getToken_nonpos word_sless_alt)

lemma maybeDial_neg_ok:
  assumes "tokens (heap m p) <s 0" and "d network address w = (Inr c, w1)"
  shows "maybeDial p network address d (m, w) = ((Some \<lparr>Conn = c, pool = p\<rparr>, None), (m, w1))"
proof -
  have "\<not> 0 <s tokens (heap m p)" "tokens (heap m p) \<noteq> 0"
    using assms(1) by (auto simp: word_sless_alt)
  then show ?thesis using assms(2)
    by (simp add: maybeDial_def call_getToken_nonpos)
qed

lemma maybeDial_neg_fail:
  assumes "tokens (heap m p) <s 0" and "d network address w = (Inl e, w1)"
  shows "maybeDial p network address d (m, w) =
    ((None, Some e), (m\<lparr>heap := (heap m)(p := (heap m p)\<lparr>tokens := tokens (heap m p) + 1\<rparr>)\<rparr>, w1))"
proof -
  have "\<not> 0 <s tokens (heap m p)" "tokens (heap m p) \<noteq> 0"
    using assms(1) by (auto simp: word_sless_alt)
  then show ?thesis using assms(2)
    by (simp add: maybeDial_def call_getToken_nonpos call_putToken)
qed

subsection \<open>Signed arithmetic without wrap-around\<close>

lemma sint_succ: "sint (w::go_int) < 2 ^ 63 - 1 \<Longrightarrow> sint (w + 1) = sint w + 1"
proof -
  assume a: "sint w < 2 ^ 63 - 1"
  have b: "- (2 ^ 63) \<le> sint w" using sint_ge [of w] by simp
  have "sint (w + 1) = signed_take_bit 63 (sint w + 1)"
    by (simp add: sint_word_ariths)
  also have "\<dots> = sint w + 1"
    using a b by (simp add: signed_take_bit_int_eq_self)
  finally show ?thesis .
qed

lemma sint_pred: "- (2 ^ 63) < sint (w::go_int) \<Longrightarrow> sint (w - 1) = sint w - 1"
proof -
  assume a: "- (2 ^ 63) < sint w"
  have b: "sint w < 2 ^ 63" using sint_lt [of w] by simp
  have "sint (w - 1) = signed_take_bit 63 (sint w - 1)"
    by (simp add: sint_word_ariths)
  also have "\<dots> = sint w - 1"
    using a b by (simp add: signed_take_bit_int_eq_self)
  finally show ?thesis .
qed

subsection \<open>The registry\<close>

lemma Dialer_pool_new:
  assumes "lookup_conns m (NetAndAddr network address) = None"
  shows "Dialer_pool network address m =
    (next_addr m,
     m\<lparr>dialer := (dialer m)\<lparr>conns :=
          Some ((case conns (dialer m) of None \<Rightarrow> Map.empty | Some cs \<Rightarrow> cs)
                  (NetAndAddr network address \<mapsto> next_addr m))\<rparr>,
       heap := (heap m)(next_addr m :=
          \<lparr>connCh = next_addr m,
           tokens = (if MaxConnPerHost (dialer m) = 0 then DefaultMaxConnsPerHost
                     else MaxConnPerHost (dialer m))\<rparr>),
       next_addr := Suc (next_addr m)\<rparr>)"
  using assms
  by (simp add: Dialer_pool_def lookup_conns_def Let_def split: option.splits)

lemma Dialer_pool_old:
  assumes "lookup_conns m (NetAndAddr network address) = Some p"
  shows "Dialer_pool network address m = (p, m)"
  using assms
  by (simp add: Dialer_pool_def lookup_conns_def Let_def split: option.splits)

lemma Dialer_pool_keeps:
  assumes "lookup_conns m k = Some p" and "p < next_addr m"
  shows "lookup_conns (snd (Dialer_pool network address m)) k = Some p
       \<and> p < next_addr (snd (Dialer_pool network address m))
       \<and> heap (snd (Dialer_pool network address m)) p = heap m p"
proof (cases "lookup_conns m (NetAndAddr network address)")
  case None
  then have "k \<noteq> NetAndAddr network address" using assms(1) by auto
  then show ?thesis using assms
    by (simp add: Dialer_pool_new [OF None]) (simp add: lookup_conns_def split: option.splits)
next
  case (Some q)
  then show ?thesis using assms by (simp add: Dialer_pool_old)
qed

lemma pool_calls_keep:
  assumes "lookup_conns m k = Some p" and "p < next_addr m"
  shows "lookup_conns (pool_calls ks m) k = Some p \<and> heap (pool_calls ks m) p = heap m p"
  using assms
proof (induction ks arbitrary: m)
  case Nil
  then show ?case by simp
next
  case (Cons x ks)
  obtain network address where x: "x = (network, address)" by (cases x)
  from Dialer_pool_keeps [OF Cons.prems, of network address]
  have a: "lookup_conns (snd (Dialer_pool network address m)) k = Some p"
    and b: "p < next_addr (snd (Dialer_pool network address m))"
    and c: "heap (snd (Dialer_pool network address m)) p = heap m p"
    by simp_all
  from Cons.IH [OF a b] c show ?case by (simp add: x)
qed

subsection \<open>\<open>Close\<close>\<close>

lemma Close_default_eq:
  "Close c None rawClose (m, w) =
     ((fst (rawClose (Conn c) w), None),
      (m\<lparr>heap := (heap m)(pool c := (heap m (pool c))\<lparr>tokens := tokens (heap m (pool c)) + 1\<rparr>)\<rparr>,
       snd (rawClose (Conn c) w)))"
  by (simp add: Close_def call_putToken split: prod.splits)

subsection \<open>The loop of \<open>Dial\<close> on an empty bucket\<close>

lemma Dial_loop_zero:
  assumes "tokens (heap m p) = 0"
  shows "Dial_loop p network address d (replicate n After10ms @ Toch # evs) (m, w)
          = Some ((None, Some (TimeoutError ErrTimeout)), evs, (m, w))"
  using assms by (induction n) (simp_all add: maybeDial_zero)

subsection \<open>The example store\<close>

lemma one_pool_simps:
  "Dialer_pool ''tcp'' ''example.org:80'' (one_pool mx t) = (0, one_pool mx t)"
  "tokens (heap (one_pool mx t) 0) = t"
  "lookup_conns (one_pool mx t) (NetAndAddr ''tcp'' ''example.org:80'') = Some 0"
  by (simp_all add: Dialer_pool_def one_pool_def lookup_conns_def Let_def)

lemma one_pool_tokens_update:
  "(one_pool mx t)\<lparr>heap := (heap (one_pool mx t))(0 := (heap (one_pool mx t) 0)\<lparr>tokens := u\<rparr>)\<rparr>
     = one_pool mx u"
  by (simp add: one_pool_def)

lemma new_mem_pool:
  "Dialer_pool ''tcp'' ''example.org:80'' (new_mem mx)
     = (0, one_pool mx (if mx = 0 then DefaultMaxConnsPerHost else mx))"
  by (simp add: Dialer_pool_def new_mem_def one_pool_def Let_def)

lemma pool_calls_lookup:
  assumes "lookup_conns m k = Some p"
  shows "lookup_conns (pool_calls ks m) k = Some p"
  using assms
proof (induction ks arbitrary: m)
  case Nil
  then show ?case by simp
next
  case (Cons x ks)
  obtain network address where x: "x = (network, address)" by (cases x)
  have "lookup_conns (snd (Dialer_pool network address m)) k = Some p"
  proof (cases "lookup_conns m (NetAndAddr network address)")
    case None
    then have "k \<noteq> NetAndAddr network address" using Cons.prems by auto
    then show ?thesis using Cons.prems
      by (simp add: Dialer_pool_new [OF None]) (simp add: lookup_conns_def split: option.splits)
  next
    case (Some q)
    then show ?thesis using Cons.prems by (simp add: Dialer_pool_old)
  qed
  then show ?case using Cons.IH by (simp add: x)
qed

section \<open>The invariant of the token accounting\<close>

text \<open>
  For every pool, the tokens in the bucket, the tokens that goroutines hold in
  flight and the connections that callers hold add up to the cap, and the bucket
  is never negative. Every step keeps this, as long as \<open>Close\<close> is called on
  connections that are held.
\<close>

lemma weight_nonneg: "0 \<le> weight p x"
  by (cases x) auto

lemma weight_ptr: "weight p x \<noteq> 0 \<Longrightarrow> ptr x = Some p"
  by (cases x) (auto split: if_splits)

lemma reserved_append: "reserved p (ps @ [x]) = reserved p ps + weight p x"
  by (simp add: reserved_def)

lemma reserved_update:
  "g < length ps \<Longrightarrow> reserved p (ps[g := x]) = reserved p ps - weight p (ps ! g) + weight p x"
  unfolding reserved_def
proof (induction ps arbitrary: g)
  case Nil
  then show ?case by simp
next
  case (Cons y ys)
  then show ?case by (cases g) auto
qed

lemma reserved_nonneg: "0 \<le> reserved p ps"
  unfolding reserved_def by (induction ps) (auto simp: weight_nonneg)

lemma reserved_ge_weight:
  assumes "g < length ps"
  shows "weight p (ps ! g) \<le> reserved p ps"
proof -
  have "0 \<le> reserved p (ps[g := CloseDone None])" by (rule reserved_nonneg)
  then show ?thesis using reserved_update [OF assms, of p "CloseDone None"] by simp
qed

lemma reserved_zero:
  assumes "\<And>x. x \<in> set ps \<Longrightarrow> ptr x \<noteq> Some p"
  shows "reserved p ps = 0"
  using assms unfolding reserved_def
proof (induction ps)
  case Nil
  then show ?case by simp
next
  case (Cons y ys)
  have "weight p y = 0" using Cons.prems [of y] weight_ptr [of p y] by auto
  then show ?case using Cons by simp
qed

lemma open_conns_Cons:
  "open_conns p (c # cs) = open_conns p cs + (if pool c = p then 1 else 0)"
  by (simp add: open_conns_def)

lemma open_conns_remove1:
  "c \<in> set cs \<Longrightarrow> open_conns p (remove1 c cs) = open_conns p cs - (if pool c = p then 1 else 0)"
  unfolding open_conns_def by (induction cs) auto

lemma open_conns_nonneg: "0 \<le> open_conns p cs"
  by (simp add: open_conns_def)

lemma open_conns_zero:
  assumes "\<And>c. c \<in> set cs \<Longrightarrow> pool c \<noteq> p"
  shows "open_conns p cs = 0"
  using assms unfolding open_conns_def by (induction cs) auto

lemma effective_max_nonneg:
  assumes "0 \<le>s mx"
  shows "0 \<le> sint (effective_max mx)"
  using assms by (simp add: effective_max_def DefaultMaxConnsPerHost_def word_sle_eq)

lemma invI:
  assumes "MaxConnPerHost (dialer (store s)) = mx"
    and "\<And>k p. lookup_conns (store s) k = Some p \<Longrightarrow> p < next_addr (store s)"
    and "\<And>x p. x \<in> set (procs s) \<Longrightarrow> ptr x = Some p \<Longrightarrow> p < next_addr (store s)"
    and "\<And>c. c \<in> set (held s) \<Longrightarrow> pool c < next_addr (store s)"
    and "\<And>p. p < next_addr (store s) \<Longrightarrow> 0 \<le> sint (tokens (heap (store s) p))"
    and "\<And>p. p < next_addr (store s) \<Longrightarrow>
           sint (tokens (heap (store s) p)) + reserved p (procs s) + open_conns p (held s)
             = sint (effective_max mx)"
  shows "pool_inv mx s"
  using assms unfolding pool_inv_def by blast

lemma inv_max: "pool_inv mx s \<Longrightarrow> MaxConnPerHost (dialer (store s)) = mx"
  unfolding pool_inv_def by blast

lemma inv_lookup: "pool_inv mx s \<Longrightarrow> lookup_conns (store s) k = Some p \<Longrightarrow> p < next_addr (store s)"
  unfolding pool_inv_def by blast

lemma inv_ptr: "pool_inv mx s \<Longrightarrow> x \<in> set (procs s) \<Longrightarrow> ptr x = Some p \<Longrightarrow> p < next_addr (store s)"
  unfolding pool_inv_def by blast

lemma inv_held: "pool_inv mx s \<Longrightarrow> c \<in> set (held s) \<Longrightarrow> pool c < next_addr (store s)"
  unfolding pool_inv_def by blast

lemma inv_nonneg: "pool_inv mx s \<Longrightarrow> p < next_addr (store s) \<Longrightarrow> 0 \<le> sint (tokens (heap (store s) p))"
  unfolding pool_inv_def by blast

lemma inv_sum: "pool_inv mx s \<Longrightarrow> p < next_addr (store s) \<Longrightarrow>
    sint (tokens (heap (store s) p)) + reserved p (procs s) + open_conns p (held s)
      = sint (effective_max mx)"
  unfolding pool_inv_def by blast

lemma at_Some: "at s g = Some x \<Longrightarrow> g < length (procs s) \<and> procs s ! g = x \<and> x \<in> set (procs s)"
  by (auto simp: at_def split: if_splits)

lemma in_set_update: "y \<in> set (xs[g := x]) \<Longrightarrow> y = x \<or> y \<in> set xs"
  using set_update_subset_insert [of xs g x] by auto

text \<open>A goroutine moves on, the store and the connections held stay.\<close>

lemma inv_move:
  assumes i: "pool_inv mx s" and g: "at s g = Some y"
    and w: "\<And>p. weight p x = weight p y"
    and v: "\<And>p. ptr x = Some p \<Longrightarrow> p < next_addr (store s)"
  shows "pool_inv mx (s\<lparr>procs := (procs s)[g := x]\<rparr>)"
proof (rule invI)
  show "MaxConnPerHost (dialer (store (s\<lparr>procs := (procs s)[g := x]\<rparr>))) = mx"
    using inv_max [OF i] by simp
next
  fix k p assume "lookup_conns (store (s\<lparr>procs := (procs s)[g := x]\<rparr>)) k = Some p"
  then show "p < next_addr (store (s\<lparr>procs := (procs s)[g := x]\<rparr>))"
    using inv_lookup [OF i] by simp
next
  fix z p assume "z \<in> set (procs (s\<lparr>procs := (procs s)[g := x]\<rparr>))" and "ptr z = Some p"
  then show "p < next_addr (store (s\<lparr>procs := (procs s)[g := x]\<rparr>))"
    using inv_ptr [OF i] v in_set_update [of z "procs s" g x] by auto
next
  fix c assume "c \<in> set (held (s\<lparr>procs := (procs s)[g := x]\<rparr>))"
  then show "pool c < next_addr (store (s\<lparr>procs := (procs s)[g := x]\<rparr>))"
    using inv_held [OF i] by simp
next
  fix p assume "p < next_addr (store (s\<lparr>procs := (procs s)[g := x]\<rparr>))"
  then show "0 \<le> sint (tokens (heap (store (s\<lparr>procs := (procs s)[g := x]\<rparr>)) p))"
    using inv_nonneg [OF i] by simp
next
  fix p assume "p < next_addr (store (s\<lparr>procs := (procs s)[g := x]\<rparr>))"
  then show "sint (tokens (heap (store (s\<lparr>procs := (procs s)[g := x]\<rparr>)) p))
      + reserved p (procs (s\<lparr>procs := (procs s)[g := x]\<rparr>))
      + open_conns p (held (s\<lparr>procs := (procs s)[g := x]\<rparr>)) = sint (effective_max mx)"
    using inv_sum [OF i, of p] at_Some [OF g] w [of p]
    by (simp add: reserved_update)
qed

lemma inv_TimerFires: "pool_inv mx s \<Longrightarrow> pool_inv mx (step s (TimerFires g))"
proof (cases "at s g")
  case None
  then show "pool_inv mx s \<Longrightarrow> ?thesis" by simp
next
  case (Some y)
  assume i: "pool_inv mx s"
  show ?thesis
  proof (cases y)
    case (AtSelect p)
    have "p < next_addr (store s)" using inv_ptr [OF i, of y p] at_Some [OF Some] AtSelect by simp
    then show ?thesis using inv_move [OF i Some, of "AtGetToken p"] Some AtSelect by simp
  next
    case (InSelect p)
    have "p < next_addr (store s)" using inv_ptr [OF i, of y p] at_Some [OF Some] InSelect by simp
    then show ?thesis using inv_move [OF i Some, of "AtGetToken p"] Some InSelect by simp
  qed (use i Some in simp_all)
qed

lemma inv_Park: "pool_inv mx s \<Longrightarrow> pool_inv mx (step s (Park g))"
proof (cases "at s g")
  case None
  then show "pool_inv mx s \<Longrightarrow> ?thesis" by simp
next
  case (Some y)
  assume i: "pool_inv mx s"
  show ?thesis
  proof (cases y)
    case (AtSelect p)
    have "p < next_addr (store s)" using inv_ptr [OF i, of y p] at_Some [OF Some] AtSelect by simp
    then show ?thesis using inv_move [OF i Some, of "InSelect p"] Some AtSelect by simp
  qed (use i Some in simp_all)
qed

lemma inv_DeadlineFires: "pool_inv mx s \<Longrightarrow> pool_inv mx (step s (DeadlineFires g))"
proof (cases "at s g")
  case None
  then show "pool_inv mx s \<Longrightarrow> ?thesis" by simp
next
  case (Some y)
  assume i: "pool_inv mx s"
  show ?thesis
  proof (cases y)
    case (AtSelect p)
    then show ?thesis
      using inv_move [OF i Some, of "DialDone (None, Some (TimeoutError ErrTimeout))"] Some
      by simp
  next
    case (InSelect p)
    then show ?thesis
      using inv_move [OF i Some, of "DialDone (None, Some (TimeoutError ErrTimeout))"] Some
      by simp
  qed (use i Some in simp_all)
qed

lemma inv_RawCloseReturns: "pool_inv mx s \<Longrightarrow> pool_inv mx (step s (RawCloseReturns g err))"
proof (cases "at s g")
  case None
  then show "pool_inv mx s \<Longrightarrow> ?thesis" by simp
next
  case (Some y)
  assume i: "pool_inv mx s"
  show ?thesis
  proof (cases y)
    case (InRawClose c)
    then show ?thesis
      using inv_move [OF i Some, of "CloseDone err"] Some by simp
  qed (use i Some in simp_all)
qed

text \<open>A goroutine moves on and one pool's count, reservations and connections change.\<close>

lemma inv_change:
  assumes i: "pool_inv mx s" and q: "q < next_addr (store s)"
    and m: "store s' = (store s)\<lparr>heap := (heap (store s))(q := (heap (store s) q)\<lparr>tokens := t\<rparr>)\<rparr>"
    and v: "\<And>x p. x \<in> set (procs s') \<Longrightarrow> ptr x = Some p \<Longrightarrow> p < next_addr (store s)"
    and h: "\<And>c. c \<in> set (held s') \<Longrightarrow> pool c < next_addr (store s)"
    and o: "\<And>p. p \<noteq> q \<Longrightarrow> reserved p (procs s') + open_conns p (held s')
                               = reserved p (procs s) + open_conns p (held s)"
    and n: "0 \<le> sint t"
    and e: "sint t + reserved q (procs s') + open_conns q (held s')
             = sint (tokens (heap (store s) q)) + reserved q (procs s) + open_conns q (held s)"
  shows "pool_inv mx s'"
proof (rule invI)
  show "MaxConnPerHost (dialer (store s')) = mx"
    using inv_max [OF i] m by simp
next
  fix k p assume "lookup_conns (store s') k = Some p"
  then show "p < next_addr (store s')"
    using inv_lookup [OF i, of k p] m by (simp add: lookup_conns_def)
next
  fix x p assume "x \<in> set (procs s')" and "ptr x = Some p"
  then show "p < next_addr (store s')" using v m by simp
next
  fix c assume "c \<in> set (held s')"
  then show "pool c < next_addr (store s')" using h m by simp
next
  fix p assume "p < next_addr (store s')"
  then show "0 \<le> sint (tokens (heap (store s') p))"
    using inv_nonneg [OF i, of p] n m by simp
next
  fix p assume p: "p < next_addr (store s')"
  show "sint (tokens (heap (store s') p)) + reserved p (procs s') + open_conns p (held s')
          = sint (effective_max mx)"
  proof (cases "p = q")
    case True
    then show ?thesis using inv_sum [OF i q] e m by simp
  next
    case False
    then show ?thesis using inv_sum [OF i, of p] o [OF False] p m by simp
  qed
qed

lemma inv_DialReturns: "pool_inv mx s \<Longrightarrow> pool_inv mx (step s (DialReturns g r))"
proof (cases "at s g")
  case None
  then show "pool_inv mx s \<Longrightarrow> ?thesis" by simp
next
  case (Some y)
  assume i: "pool_inv mx s"
  note a = at_Some [OF Some]
  show ?thesis
  proof (cases y)
    case (InDial p)
    have p: "p < next_addr (store s)" using inv_ptr [OF i, of y p] a InDial by simp
    show ?thesis
    proof (cases r)
      case (Inl err)
      then show ?thesis
        using inv_move [OF i Some, of "AtPutToken p err"] Some InDial p by simp
    next
      case (Inr c)
      let ?s' = "s\<lparr>procs := (procs s)[g := DialDone (Some \<lparr>Conn = c, pool = p\<rparr>, None)],
                   held := \<lparr>Conn = c, pool = p\<rparr> # held s\<rparr>"
      have "pool_inv mx ?s'"
      proof (rule inv_change [OF i p, where t = "tokens (heap (store s) p)"])
        show "store ?s' = (store s)\<lparr>heap := (heap (store s))
                (p := (heap (store s) p)\<lparr>tokens := tokens (heap (store s) p)\<rparr>)\<rparr>"
          by simp
      next
        fix x q assume "x \<in> set (procs ?s')" and "ptr x = Some q"
        then show "q < next_addr (store s)"
          using inv_ptr [OF i, of x q]
            in_set_update [of x "procs s" g "DialDone (Some \<lparr>Conn = c, pool = p\<rparr>, None)"]
          by auto
      next
        fix d assume "d \<in> set (held ?s')"
        then show "pool d < next_addr (store s)" using inv_held [OF i, of d] p by auto
      next
        fix q assume "q \<noteq> p"
        then show "reserved q (procs ?s') + open_conns q (held ?s')
                     = reserved q (procs s) + open_conns q (held s)"
          using a InDial by (simp add: reserved_update open_conns_Cons)
      next
        show "0 \<le> sint (tokens (heap (store s) p))" by (rule inv_nonneg [OF i p])
      next
        show "sint (tokens (heap (store s) p)) + reserved p (procs ?s') + open_conns p (held ?s')
                = sint (tokens (heap (store s) p)) + reserved p (procs s) + open_conns p (held s)"
          using a InDial by (simp add: reserved_update open_conns_Cons)
      qed
      then show ?thesis using Some InDial Inr by simp
    qed
  qed (use i Some in simp_all)
qed

lemma inv_GetToken: "pool_inv mx s \<Longrightarrow> pool_inv mx (step s (GetToken g))"
proof (cases "at s g")
  case None
  then show "pool_inv mx s \<Longrightarrow> ?thesis" by simp
next
  case (Some y)
  assume i: "pool_inv mx s"
  note a = at_Some [OF Some]
  show ?thesis
  proof (cases y)
    case (AtGetToken p)
    have p: "p < next_addr (store s)" using inv_ptr [OF i, of y p] a AtGetToken by simp
    let ?t = "tokens (heap (store s) p)"
    have n: "0 \<le> sint ?t" by (rule inv_nonneg [OF i p])
    show ?thesis
    proof (cases "?t = 0")
      case True
      then have "call p getToken (store s) = (0, store s)"
        by (simp add: call_getToken_nonpos word_sless_alt)
      then show ?thesis
        using inv_move [OF i Some, of "AtSelect p"] Some AtGetToken p by simp
    next
      case False
      then have pos: "0 < sint ?t" using n by (simp add: order_less_le signed_eq_0_iff)
      then have "0 <s ?t" by (simp add: word_sless_alt)
      then have c: "call p getToken (store s) =
        (?t, (store s)\<lparr>heap := (heap (store s))(p := (heap (store s) p)\<lparr>tokens := ?t - 1\<rparr>)\<rparr>)"
        by (rule call_getToken_pos)
      have d: "sint (?t - 1) = sint ?t - 1" using pos by (intro sint_pred) simp
      let ?s' = "s\<lparr>store := (store s)\<lparr>heap := (heap (store s))
                           (p := (heap (store s) p)\<lparr>tokens := ?t - 1\<rparr>)\<rparr>,
                   procs := (procs s)[g := InDial p]\<rparr>"
      have "pool_inv mx ?s'"
      proof (rule inv_change [OF i p, where t = "?t - 1"])
        show "store ?s' = (store s)\<lparr>heap := (heap (store s))
                (p := (heap (store s) p)\<lparr>tokens := ?t - 1\<rparr>)\<rparr>"
          by simp
      next
        fix x q assume "x \<in> set (procs ?s')" and "ptr x = Some q"
        then show "q < next_addr (store s)"
          using inv_ptr [OF i, of x q] in_set_update [of x "procs s" g "InDial p"] p
          by auto
      next
        fix d assume "d \<in> set (held ?s')"
        then show "pool d < next_addr (store s)" using inv_held [OF i, of d] by simp
      next
        fix q assume "q \<noteq> p"
        then show "reserved q (procs ?s') + open_conns q (held ?s')
                     = reserved q (procs s) + open_conns q (held s)"
          using a AtGetToken by (simp add: reserved_update)
      next
        show "0 \<le> sint (?t - 1)" using d pos by simp
      next
        show "sint (?t - 1) + reserved p (procs ?s') + open_conns p (held ?s')
                = sint ?t + reserved p (procs s) + open_conns p (held s)"
          using a AtGetToken d by (simp add: reserved_update)
      qed
      then show ?thesis using Some AtGetToken c False by simp
    qed
  qed (use i Some in simp_all)
qed

lemma in_set_remove1D: "d \<in> set (remove1 c xs) \<Longrightarrow> d \<in> set xs"
  using set_remove1_subset [of c xs] by auto

lemma sint_le_max: "sint (w :: go_int) \<le> 2 ^ 63 - 1"
  using sint_lt [of w] by simp

text \<open>Releasing a token that a goroutine holds.\<close>

lemma inv_release:
  assumes i: "pool_inv mx s" and g: "at s g = Some y" and wy: "weight q y = 1"
    and wy': "\<And>p. p \<noteq> q \<Longrightarrow> weight p y = 0"
    and wx: "\<And>p. weight p x = 0" and px: "ptr x = None"
  shows "pool_inv mx (s\<lparr>store := snd (call q putToken (store s)), procs := (procs s)[g := x]\<rparr>)"
proof -
  note a = at_Some [OF g]
  have "ptr y = Some q" using weight_ptr [of q y] wy by simp
  then have q: "q < next_addr (store s)" using inv_ptr [OF i, of y q] a by simp
  let ?t = "tokens (heap (store s) q)"
  let ?s' = "s\<lparr>store := snd (call q putToken (store s)), procs := (procs s)[g := x]\<rparr>"
  have "1 \<le> reserved q (procs s)" using reserved_ge_weight [of g "procs s" q] a wy by simp
  then have "sint ?t < sint (effective_max mx)"
    using inv_sum [OF i q] open_conns_nonneg [of q "held s"] by linarith
  then have "sint ?t < 2 ^ 63 - 1" using sint_le_max [of "effective_max mx"] by linarith
  then have d: "sint (?t + 1) = sint ?t + 1" by (rule sint_succ)
  show ?thesis
  proof (rule inv_change [OF i q, where t = "?t + 1"])
    show "store ?s' = (store s)\<lparr>heap := (heap (store s))
            (q := (heap (store s) q)\<lparr>tokens := ?t + 1\<rparr>)\<rparr>"
      by (simp add: call_putToken)
  next
    fix z p assume "z \<in> set (procs ?s')" and "ptr z = Some p"
    then show "p < next_addr (store s)"
      using inv_ptr [OF i, of z p] in_set_update [of z "procs s" g x] px by auto
  next
    fix d assume "d \<in> set (held ?s')"
    then show "pool d < next_addr (store s)" using inv_held [OF i, of d] by simp
  next
    fix p assume "p \<noteq> q"
    then show "reserved p (procs ?s') + open_conns p (held ?s')
                 = reserved p (procs s) + open_conns p (held s)"
      using a wy' [of p] wx [of p] by (simp add: reserved_update)
  next
    show "0 \<le> sint (?t + 1)" using d inv_nonneg [OF i q] by simp
  next
    show "sint (?t + 1) + reserved q (procs ?s') + open_conns q (held ?s')
            = sint ?t + reserved q (procs s) + open_conns q (held s)"
      using a d wy wx [of q] by (simp add: reserved_update)
  qed
qed

lemma inv_PutToken: "pool_inv mx s \<Longrightarrow> pool_inv mx (step s (PutToken g))"
proof (cases "at s g")
  case None
  then show "pool_inv mx s \<Longrightarrow> ?thesis" by simp
next
  case (Some y)
  assume i: "pool_inv mx s"
  show ?thesis
  proof (cases y)
    case (AtPutToken p err)
    then show ?thesis
      using inv_release [OF i Some, of p "DialDone (None, Some err)"] Some
      by (simp add: split_beta)
  next
    case (AtRelease c)
    then show ?thesis
      using inv_release [OF i Some, of "pool c" "InRawClose c"] Some
      by (simp add: split_beta)
  qed (use i Some in simp_all)
qed

lemma inv_CallClose:
  assumes i: "pool_inv mx s" and c: "c \<in> set (held s)"
  shows "pool_inv mx (step s (CallClose c recv))"
proof (cases recv)
  case (Some g)
  show ?thesis
  proof (cases "at s g = Some (InSelect (pool c))")
    case False
    then show ?thesis using i Some by simp
  next
    case True
    note a = at_Some [OF True]
    have q: "pool c < next_addr (store s)" by (rule inv_held [OF i c])
    let ?s' = "s\<lparr>procs := (procs s)[g := DialDone (Some c, None)] @ [CloseDone None],
                 held := c # remove1 c (held s)\<rparr>"
    have "pool_inv mx ?s'"
    proof (rule inv_change [OF i q, where t = "tokens (heap (store s) (pool c))"])
      show "store ?s' = (store s)\<lparr>heap := (heap (store s))
              (pool c := (heap (store s) (pool c))\<lparr>tokens := tokens (heap (store s) (pool c))\<rparr>)\<rparr>"
        by simp
    next
      fix z p assume "z \<in> set (procs ?s')" and "ptr z = Some p"
      then show "p < next_addr (store s)"
        using inv_ptr [OF i, of z p] in_set_update [of z "procs s" g "DialDone (Some c, None)"]
        by auto
    next
      fix d assume "d \<in> set (held ?s')"
      then show "pool d < next_addr (store s)"
        using inv_held [OF i, of d] q in_set_remove1D [of d c "held s"] by auto
    next
      fix p assume "p \<noteq> pool c"
      then show "reserved p (procs ?s') + open_conns p (held ?s')
                   = reserved p (procs s) + open_conns p (held s)"
        using a c by (simp add: reserved_update reserved_append open_conns_Cons open_conns_remove1)
    next
      show "0 \<le> sint (tokens (heap (store s) (pool c)))" by (rule inv_nonneg [OF i q])
    next
      show "sint (tokens (heap (store s) (pool c))) + reserved (pool c) (procs ?s')
              + open_conns (pool c) (held ?s')
            = sint (tokens (heap (store s) (pool c))) + reserved (pool c) (procs s)
              + open_conns (pool c) (held s)"
        using a c by (simp add: reserved_update reserved_append open_conns_Cons open_conns_remove1)
    qed
    then show ?thesis using Some True by simp
  qed
next
  case None
  show ?thesis
  proof -
    have q: "pool c < next_addr (store s)" by (rule inv_held [OF i c])
    let ?s' = "s\<lparr>procs := procs s @ [AtRelease c], held := remove1 c (held s)\<rparr>"
    have "pool_inv mx ?s'"
    proof (rule inv_change [OF i q, where t = "tokens (heap (store s) (pool c))"])
      show "store ?s' = (store s)\<lparr>heap := (heap (store s))
              (pool c := (heap (store s) (pool c))\<lparr>tokens := tokens (heap (store s) (pool c))\<rparr>)\<rparr>"
        by simp
    next
      fix z p assume "z \<in> set (procs ?s')" and "ptr z = Some p"
      then show "p < next_addr (store s)"
        using inv_ptr [OF i, of z p] q by auto
    next
      fix d assume "d \<in> set (held ?s')"
      then show "pool d < next_addr (store s)"
        using inv_held [OF i, of d] in_set_remove1D [of d c "held s"] by auto
    next
      fix p assume "p \<noteq> pool c"
      then show "reserved p (procs ?s') + open_conns p (held ?s')
                   = reserved p (procs s) + open_conns p (held s)"
        using c by (simp add: reserved_append open_conns_remove1)
    next
      show "0 \<le> sint (tokens (heap (store s) (pool c)))" by (rule inv_nonneg [OF i q])
    next
      show "sint (tokens (heap (store s) (pool c))) + reserved (pool c) (procs ?s')
              + open_conns (pool c) (held ?s')
            = sint (tokens (heap (store s) (pool c))) + reserved (pool c) (procs s)
              + open_conns (pool c) (held s)"
        using c by (simp add: reserved_append open_conns_remove1)
    qed
    then show ?thesis using None by simp
  qed
qed

lemma inv_CallDial:
  assumes i: "pool_inv mx s" and mx: "0 \<le>s mx"
  shows "pool_inv mx (step s (CallDial network address))"
proof (cases "lookup_conns (store s) (NetAndAddr network address)")
  case (Some q)
  have q: "q < next_addr (store s)" by (rule inv_lookup [OF i Some])
  let ?s' = "s\<lparr>procs := procs s @ [AtGetToken q]\<rparr>"
  have "pool_inv mx ?s'"
  proof (rule inv_change [OF i q, where t = "tokens (heap (store s) q)"])
    show "store ?s' = (store s)\<lparr>heap := (heap (store s))
            (q := (heap (store s) q)\<lparr>tokens := tokens (heap (store s) q)\<rparr>)\<rparr>"
      by simp
  next
    fix z p assume "z \<in> set (procs ?s')" and "ptr z = Some p"
    then show "p < next_addr (store s)" using inv_ptr [OF i, of z p] q by auto
  next
    fix d assume "d \<in> set (held ?s')"
    then show "pool d < next_addr (store s)" using inv_held [OF i, of d] by simp
  next
    fix p
    show "reserved p (procs ?s') + open_conns p (held ?s')
            = reserved p (procs s) + open_conns p (held s)"
      by (simp add: reserved_append)
  next
    show "0 \<le> sint (tokens (heap (store s) q))" by (rule inv_nonneg [OF i q])
  next
    show "sint (tokens (heap (store s) q)) + reserved q (procs ?s') + open_conns q (held ?s')
            = sint (tokens (heap (store s) q)) + reserved q (procs s) + open_conns q (held s)"
      by (simp add: reserved_append)
  qed
  moreover have "step s (CallDial network address) = ?s'"
    by (simp add: Dialer_pool_old [OF Some])
  ultimately show ?thesis by simp
next
  case None
  let ?n = "next_addr (store s)"
  let ?m = "snd (Dialer_pool network address (store s))"
  let ?s' = "s\<lparr>store := ?m, procs := procs s @ [AtGetToken ?n]\<rparr>"
  have st: "step s (CallDial network address) = ?s'"
    by (simp add: Dialer_pool_new [OF None])
  have nx: "next_addr ?m = Suc ?n" by (simp add: Dialer_pool_new [OF None])
  have hp: "heap ?m = (heap (store s))(?n := \<lparr>connCh = ?n, tokens = effective_max mx\<rparr>)"
    using inv_max [OF i] by (simp add: Dialer_pool_new [OF None] effective_max_def)
  have r0: "reserved ?n (procs s) = 0"
    using inv_ptr [OF i] by (intro reserved_zero) fastforce
  have o0: "open_conns ?n (held s) = 0"
    using inv_held [OF i] by (intro open_conns_zero) fastforce
  have "pool_inv mx ?s'"
  proof (rule invI)
    show "MaxConnPerHost (dialer (store ?s')) = mx"
      using inv_max [OF i] by (simp add: Dialer_pool_new [OF None])
  next
    fix k p assume "lookup_conns (store ?s') k = Some p"
    then have "p = ?n \<or> lookup_conns (store s) k = Some p"
      by (auto simp: Dialer_pool_new [OF None] lookup_conns_def split: option.splits if_splits)
    then show "p < next_addr (store ?s')" using inv_lookup [OF i, of k p] nx by auto
  next
    fix z p assume "z \<in> set (procs ?s')" and "ptr z = Some p"
    then show "p < next_addr (store ?s')" using inv_ptr [OF i, of z p] nx by auto
  next
    fix d assume "d \<in> set (held ?s')"
    then show "pool d < next_addr (store ?s')" using inv_held [OF i, of d] nx by auto
  next
    fix p assume "p < next_addr (store ?s')"
    then show "0 \<le> sint (tokens (heap (store ?s') p))"
      using inv_nonneg [OF i, of p] nx hp effective_max_nonneg [OF mx] by (cases "p = ?n") auto
  next
    fix p assume "p < next_addr (store ?s')"
    then show "sint (tokens (heap (store ?s') p)) + reserved p (procs ?s')
                 + open_conns p (held ?s') = sint (effective_max mx)"
      using inv_sum [OF i, of p] nx hp r0 o0
      by (cases "p = ?n") (auto simp: reserved_append)
  qed
  then show ?thesis using st by simp
qed

lemma inv_step:
  assumes "pool_inv mx s" and "0 \<le>s mx" and "\<And>c recv. a = CallClose c recv \<Longrightarrow> c \<in> set (held s)"
  shows "pool_inv mx (step s a)"
proof (cases a)
  case (CallDial network address)
  then show ?thesis using inv_CallDial [OF assms(1,2)] by simp
next
  case (GetToken g)
  then show ?thesis using inv_GetToken [OF assms(1)] by simp
next
  case (DialReturns g r)
  then show ?thesis using inv_DialReturns [OF assms(1)] by simp
next
  case (PutToken g)
  then show ?thesis using inv_PutToken [OF assms(1)] by simp
next
  case (Park g)
  then show ?thesis using inv_Park [OF assms(1)] by simp
next
  case (TimerFires g)
  then show ?thesis using inv_TimerFires [OF assms(1)] by simp
next
  case (DeadlineFires g)
  then show ?thesis using inv_DeadlineFires [OF assms(1)] by simp
next
  case (CallClose c recv)
  then show ?thesis using inv_CallClose [OF assms(1)] assms(3) by simp
next
  case (RawCloseReturns g err)
  then show ?thesis using inv_RawCloseReturns [OF assms(1)] by simp
qed

lemma inv_run:
  assumes "pool_inv mx s" and "0 \<le>s mx" and "closes_held s tr"
  shows "pool_inv mx (run s tr)"
  using assms
proof (induction tr arbitrary: s)
  case Nil
  then show ?case by simp
next
  case (Cons a tr)
  have h: "\<And>c recv. a = CallClose c recv \<Longrightarrow> c \<in> set (held s)"
    using Cons.prems(3) by auto
  have "closes_held (step s a) tr" using Cons.prems(3) by (cases a) auto
  then show ?case using Cons.IH [OF inv_step [OF Cons.prems(1,2) h] Cons.prems(2)] by simp
qed

lemma inv_init: "pool_inv mx (init mx)"
  by (simp add: pool_inv_def init_def new_mem_def lookup_conns_def)

subsection \<open>\<open>Close\<close> on the example transport\<close>

lemma Close_default_examples:
  "Close \<lparr>Conn = 7, pool = 0\<rparr> None close_ok (one_pool 1 0, transport0)
     = ((None, None), (one_pool 1 1, \<lparr>dialed = 0, closed = [7]\<rparr>))"
  "Close \<lparr>Conn = 7, pool = 0\<rparr> None close_broken (one_pool 1 0, transport0)
     = ((Some (TransportError ''broken pipe''), None),
        (one_pool 1 1, \<lparr>dialed = 0, closed = [7]\<rparr>))"
  "Close \<lparr>Conn = 7, pool = 0\<rparr> (Some 3) close_broken (one_pool 1 0, transport0)
     = ((None, Some (3, \<lparr>Conn = 7, pool = 0\<rparr>)), (one_pool 1 0, transport0))"
  by (simp_all add: Close_def call_putToken close_ok_def close_broken_def transport0_def
      one_pool_simps one_pool_tokens_update)

subsection \<open>The three runs\<close>

lemma example_run:
  "run (init 1) example_trace =
     \<lparr>store = one_pool 1 1,
      procs = [DialDone (Some \<lparr>Conn = 7, pool = 0\<rparr>, None),
               DialDone (Some \<lparr>Conn = 7, pool = 0\<rparr>, None),
               CloseDone None, CloseDone None],
      held = []\<rparr>"
  by (simp add: example_trace_def init_def new_mem_pool at_def call_def getToken_def
      putToken_def one_pool_simps one_pool_tokens_update word_sless_alt)

lemma example_closes_held: "closes_held (init 1) example_trace"
  by (simp add: example_trace_def init_def new_mem_pool at_def call_def getToken_def
      putToken_def one_pool_simps one_pool_tokens_update word_sless_alt)

lemma missed_handoff_run:
  "run (init 1) missed_handoff_trace =
     \<lparr>store = one_pool 1 1,
      procs = [DialDone (Some \<lparr>Conn = 7, pool = 0\<rparr>, None), AtSelect 0,
               InRawClose \<lparr>Conn = 7, pool = 0\<rparr>],
      held = []\<rparr>
   \<and> closes_held (init 1) missed_handoff_trace"
  by (simp add: missed_handoff_trace_def init_def new_mem_pool at_def call_def getToken_def
      putToken_def one_pool_simps one_pool_tokens_update word_sless_alt)

lemma double_close_run:
  "store (run (init 1) double_close_trace) = one_pool 1 2
   \<and> \<not> closes_held (init 1) double_close_trace"
  by (simp add: double_close_trace_def init_def new_mem_pool at_def call_def getToken_def
      putToken_def one_pool_simps one_pool_tokens_update word_sless_alt)

subsection \<open>One goroutine alone does what the functions do\<close>

text \<open>
  The steps of a goroutine, run without another goroutine in between, change the
  store as \<open>maybeDial\<close> and \<open>Close\<close> do; the send of \<open>Close\<close> to a parked goroutine
  makes that goroutine's \<open>Dial\<close> return the connection.
\<close>

lemma solo_maybeDial:
  assumes "at s g = Some (AtGetToken p)"
  shows "store (run s [GetToken g, DialReturns g r, PutToken g])
           = fst (snd (maybeDial p network address (\<lambda>n a w. (r, w)) (store s, w)))"
proof -
  note a = at_Some [OF assms]
  show ?thesis
    using assms a
    by (cases r) (simp_all add: maybeDial_def at_def split_beta Let_def call_def)
qed

lemma solo_Close:
  "store (run s [CallClose c None, PutToken (length (procs s))])
     = fst (snd (Close c None rawClose (store s, w)))"
  by (simp add: Close_def at_def split_beta Let_def call_def)

lemma handoff_step:
  assumes "at s g = Some (InSelect (pool c))"
  shows "store (step s (CallClose c (Some g))) = store s
       \<and> at (step s (CallClose c (Some g))) g = Some (DialDone (Some c, None))
       \<and> Close c (Some g) rawClose (store s, w) = ((None, Some (g, c)), (store s, w))"
  using assms at_Some [OF assms] by (simp add: at_def Close_def nth_append)

section \<open>The claims\<close>

text \<open>
  C1. The \<open>Dialer\<close> has a non-negative \<open>MaxConnPerHost\<close>, goroutines call \<open>Dial\<close>
  and \<open>Close\<close> in any number and their steps interleave in any order, and \<open>Close\<close> is
  only called on connections that are held (each connection returned by a \<open>Dial\<close> is
  closed at most once). Then in every state reached, every pool of the registry has
  a token count between 0 and the cap (\<open>MaxConnPerHost\<close>, or 10 when that is 0); the
  count, the tokens that goroutines hold in flight (in the raw dial, or about to
  release) and the connections of that pool that callers hold add up to the cap, so
  the token holders, in flight or open, are never more than the cap.
\<close>

theorem tokens_within_cap:
  assumes "0 \<le>s mx" and "closes_held (init mx) tr"
    and "lookup_conns (store (run (init mx) tr)) k = Some p"
  shows "0 \<le>s tokens (heap (store (run (init mx) tr)) p)
       \<and> tokens (heap (store (run (init mx) tr)) p)
           \<le>s (if mx = 0 then DefaultMaxConnsPerHost else mx)
       \<and> sint (tokens (heap (store (run (init mx) tr)) p))
           + reserved p (procs (run (init mx) tr))
           + int (length (filter (\<lambda>c. pool c = p) (held (run (init mx) tr))))
           = sint (if mx = 0 then DefaultMaxConnsPerHost else mx)
       \<and> 0 \<le> reserved p (procs (run (init mx) tr))
       \<and> reserved p (procs (run (init mx) tr))
           + int (length (filter (\<lambda>c. pool c = p) (held (run (init mx) tr))))
           \<le> sint (if mx = 0 then DefaultMaxConnsPerHost else mx)"
proof -
  let ?s = "run (init mx) tr"
  have i: "pool_inv mx ?s" by (rule inv_run [OF inv_init assms(1,2)])
  have p: "p < next_addr (store ?s)" by (rule inv_lookup [OF i assms(3)])
  have "0 \<le> sint (tokens (heap (store ?s) p))" by (rule inv_nonneg [OF i p])
  moreover have "sint (tokens (heap (store ?s) p)) + reserved p (procs ?s)
      + open_conns p (held ?s) = sint (effective_max mx)" by (rule inv_sum [OF i p])
  moreover have "0 \<le> reserved p (procs ?s)" by (rule reserved_nonneg)
  moreover have "0 \<le> open_conns p (held ?s)" by (rule open_conns_nonneg)
  ultimately show ?thesis
    by (simp add: word_sle_eq effective_max_def open_conns_def)
qed

theorem tokens_within_cap_witness:
  "(0 :: go_int) \<le>s 1
   \<and> closes_held (init 1) example_trace
   \<and> lookup_conns (store (run (init 1) example_trace)) (NetAndAddr ''tcp'' ''example.org:80'')
        = Some 0
   \<and> 0 \<le>s tokens (heap (store (run (init 1) example_trace)) 0)
   \<and> tokens (heap (store (run (init 1) example_trace)) 0) \<le>s 1
   \<and> sint (tokens (heap (store (run (init 1) example_trace)) 0))
       + reserved 0 (procs (run (init 1) example_trace))
       + int (length (filter (\<lambda>c. pool c = 0) (held (run (init 1) example_trace)))) = 1
   \<and> reserved 0 (procs (run (init 1) example_trace))
       + int (length (filter (\<lambda>c. pool c = 0) (held (run (init 1) example_trace)))) \<le> 1"
proof -
  have h1: "(0 :: go_int) \<le>s 1" by (simp add: word_sle_eq)
  have h3: "lookup_conns (store (run (init 1) example_trace))
              (NetAndAddr ''tcp'' ''example.org:80'') = Some 0"
    by (simp add: example_run one_pool_simps)
  show ?thesis
    using tokens_within_cap [OF h1 example_closes_held h3] h1 h3 example_closes_held
    by simp
qed

text \<open>
  C2. \<open>Close\<close> while a goroutine \<open>g\<close> is receiving on the pool's channel: \<open>Close\<close>
  returns nil, that very connection is delivered to \<open>g\<close>, and nothing else happens:
  the store (so the token count) and the transport (so the raw connection, which is
  not closed) are as before, whatever the raw close would do. The \<open>Dial\<close> that
  receives the connection returns it.
\<close>

theorem Close_hands_over:
  "Close c (Some g) rawClose (m, w) = ((None, Some (g, c)), (m, w))
   \<and> Dial_loop p network address d (RecvConnCh c # evs) (m, w)
       = Some ((Some c, None), evs, (m, w))"
  by (simp add: Close_def)

text \<open>
  C3. \<open>Close\<close> while no goroutine is receiving: nothing is delivered, the token
  count of the connection's pool is incremented by one (and nothing else in the
  store changes), the raw close runs on the raw connection, and \<open>Close\<close> returns
  the error of the raw close, nil or not.
\<close>

theorem Close_default_releases_and_closes:
  "Close c None rawClose (m, w) =
     ((fst (rawClose (Conn c) w), None),
      (m\<lparr>heap := (heap m)(pool c := (heap m (pool c))\<lparr>tokens := tokens (heap m (pool c)) + 1\<rparr>)\<rparr>,
       snd (rawClose (Conn c) w)))"
  by (rule Close_default_eq)

text \<open>
  C4. A token is acquired (the count is positive) and the raw dial fails with \<open>e\<close>:
  \<open>maybeDial\<close> returns no connection and the error \<open>e\<close>, and leaves the store as
  it was before the call, so the token count is the one before the call. \<open>Dial\<close>
  returns the same, from its first attempt and from an attempt of its loop, without
  another round.
\<close>

theorem dial_failure_releases_token:
  assumes "0 <s tokens (heap m p)" and "d network address w = (Inl e, w1)"
  shows "maybeDial p network address d (m, w) = ((None, Some e), (m, w1))
       \<and> Dial_loop p network address d (After10ms # evs) (m, w)
           = Some ((None, Some e), evs, (m, w1))
       \<and> (Dialer_pool network address m0 = (p, m)
            \<longrightarrow> Dial network address d evs (m0, w) = Some ((None, Some e), evs, (m, w1)))"
  using assms by (simp add: maybeDial_fail_pos Dial_def)

theorem dial_failure_releases_token_witness:
  "0 <s tokens (heap (one_pool 0 10) 0)
   \<and> dial_refused ''tcp'' ''example.org:80'' transport0
        = (Inl (TransportError ''connection refused''), transport0\<lparr>dialed := 1\<rparr>)
   \<and> Dialer_pool ''tcp'' ''example.org:80'' (one_pool 0 10) = (0, one_pool 0 10)
   \<and> maybeDial 0 ''tcp'' ''example.org:80'' dial_refused (one_pool 0 10, transport0)
        = ((None, Some (TransportError ''connection refused'')),
           (one_pool 0 10, transport0\<lparr>dialed := 1\<rparr>))
   \<and> Dial_loop 0 ''tcp'' ''example.org:80'' dial_refused [After10ms, Toch]
        (one_pool 0 10, transport0)
        = Some ((None, Some (TransportError ''connection refused'')), [Toch],
                (one_pool 0 10, transport0\<lparr>dialed := 1\<rparr>))
   \<and> Dial ''tcp'' ''example.org:80'' dial_refused [] (one_pool 0 10, transport0)
        = Some ((None, Some (TransportError ''connection refused'')), [],
                (one_pool 0 10, transport0\<lparr>dialed := 1\<rparr>))"
proof -
  have h1: "0 <s tokens (heap (one_pool 0 10) 0)"
    by (simp add: one_pool_simps word_sless_alt)
  have h2: "dial_refused ''tcp'' ''example.org:80'' transport0
        = (Inl (TransportError ''connection refused''), transport0\<lparr>dialed := 1\<rparr>)"
    by (simp add: dial_refused_def transport0_def)
  show ?thesis
    using dial_failure_releases_token [where m = "one_pool 0 10" and p = 0
        and d = dial_refused and network = "''tcp''" and address = "''example.org:80''"
        and w = transport0 and e = "TransportError ''connection refused''"
        and ?w1.0 = "transport0\<lparr>dialed := 1\<rparr>" and evs = "[Toch]"
        and ?m0.0 = "one_pool 0 10"]
      dial_failure_releases_token [where m = "one_pool 0 10" and p = 0
        and d = dial_refused and network = "''tcp''" and address = "''example.org:80''"
        and w = transport0 and e = "TransportError ''connection refused''"
        and ?w1.0 = "transport0\<lparr>dialed := 1\<rparr>" and evs = "[]"
        and ?m0.0 = "one_pool 0 10"]
      h1 h2 one_pool_simps(1) [of 0 10]
    by simp
qed

text \<open>
  C5 fails on the code where the count is negative. \<open>maybeDial\<close> tests
  \<open>getToken() != 0\<close>, while \<open>getToken\<close> decrements only when \<open>t > 0\<close>: on the pool
  that a \<open>Dialer\<close> with \<open>MaxConnPerHost = -1\<close> creates, the count \<open>-1\<close> is not
  positive, yet \<open>maybeDial\<close> calls the raw dial (the transport counts one dial) and
  returns a connection, with the count still \<open>-1\<close>; and when the raw dial fails,
  \<open>putToken\<close> raises the count to 0 although nothing was taken.
\<close>

theorem maybeDial_dials_on_negative_count:
  "Dialer_pool ''tcp'' ''example.org:80'' (new_mem (- 1)) = (0, one_pool (- 1) (- 1))
   \<and> \<not> 0 <s tokens (heap (one_pool (- 1) (- 1)) 0)
   \<and> maybeDial 0 ''tcp'' ''example.org:80'' dial_ok (one_pool (- 1) (- 1), transport0)
       = ((Some \<lparr>Conn = 0, pool = 0\<rparr>, None),
          (one_pool (- 1) (- 1), \<lparr>dialed = 1, closed = []\<rparr>))
   \<and> maybeDial 0 ''tcp'' ''example.org:80'' dial_refused (one_pool (- 1) (- 1), transport0)
       = ((None, Some (TransportError ''connection refused'')),
          (one_pool (- 1) 0, \<lparr>dialed = 1, closed = []\<rparr>))"
proof -
  have n: "tokens (heap (one_pool (- 1) (- 1)) 0) <s 0"
    by (simp add: one_pool_simps word_sless_alt)
  have a: "dial_ok ''tcp'' ''example.org:80'' transport0 = (Inr 0, \<lparr>dialed = 1, closed = []\<rparr>)"
    by (simp add: dial_ok_def transport0_def)
  have b: "dial_refused ''tcp'' ''example.org:80'' transport0
             = (Inl (TransportError ''connection refused''), \<lparr>dialed = 1, closed = []\<rparr>)"
    by (simp add: dial_refused_def transport0_def)
  show ?thesis
    using maybeDial_neg_ok [where d = dial_ok, OF n a] maybeDial_neg_fail [where d = dial_refused, OF n b]
    by (simp add: new_mem_pool one_pool_simps one_pool_tokens_update word_sless_alt)
qed

text \<open>
  C6. The pool resolved by \<open>Dial\<close> has no token, and the rounds of the loop are
  \<open>n\<close> polls, which find no token, and then the deadline: \<open>Dial\<close> returns no
  connection and the error \<open>ErrTimeout{}\<close>, whose \<open>Temporary\<close> and \<open>Timeout\<close> are
  both true.
\<close>

theorem Dial_times_out:
  assumes "Dialer_pool network address m = (p, m1)" and "tokens (heap m1 p) = 0"
  shows "Dial network address d (replicate n After10ms @ Toch # evs) (m, w)
           = Some ((None, Some (TimeoutError ErrTimeout)), evs, (m1, w))
         \<and> Temporary ErrTimeout \<and> Timeout ErrTimeout"
  using assms
  by (simp add: Dial_def maybeDial_zero Dial_loop_zero Temporary_def Timeout_def)

theorem Dial_times_out_witness:
  "Dialer_pool ''tcp'' ''example.org:80'' (one_pool 1 0) = (0, one_pool 1 0)
   \<and> tokens (heap (one_pool 1 0) 0) = 0
   \<and> Dial ''tcp'' ''example.org:80'' dial_ok [After10ms, After10ms, Toch]
        (one_pool 1 0, transport0)
        = Some ((None, Some (TimeoutError ErrTimeout)), [], (one_pool 1 0, transport0))
   \<and> Temporary ErrTimeout \<and> Timeout ErrTimeout"
  using Dial_times_out [of "''tcp''" "''example.org:80''" "one_pool 1 0" 0 "one_pool 1 0"
      dial_ok "Suc (Suc 0)" "[]" transport0]
  by (simp add: one_pool_simps)

text \<open>
  C7, amended. \<open>putToken\<close> returns the old count and stores the count plus one,
  whatever the count is: no maximum is consulted. Two releases from a count equal
  to the maximum \<open>mx\<close> leave a count strictly above \<open>mx\<close>, provided \<open>mx + 2\<close> is
  still an \<open>int\<close> (\<open>mx \<le> 2^63 - 3\<close>).
\<close>

theorem putToken_twice_above_max:
  "putToken p = (tokens p, p\<lparr>tokens := tokens p + 1\<rparr>)
   \<and> (tokens p = mx \<and> sint mx \<le> 2 ^ 63 - 3
        \<longrightarrow> mx <s tokens (snd (putToken (snd (putToken p)))))"
proof -
  have "mx <s tokens (snd (putToken (snd (putToken p))))"
    if a: "tokens p = mx" and b: "sint mx \<le> 2 ^ 63 - 3"
  proof -
    have e: "tokens (snd (putToken (snd (putToken p)))) = mx + 1 + 1"
      using a by (simp add: putToken_def)
    have s1: "sint (mx + 1) = sint mx + 1"
      using b by (intro sint_succ) simp
    have s2: "sint (mx + 1 + 1) = sint (mx + 1) + 1"
      using b s1 by (intro sint_succ) simp
    show ?thesis
      unfolding e word_sless_alt using s1 s2 by linarith
  qed
  then show ?thesis by (simp add: putToken_def)
qed

theorem putToken_twice_above_max_witness:
  "putToken \<lparr>connCh = 0, tokens = 10\<rparr> = (10, \<lparr>connCh = 0, tokens = 11\<rparr>)
   \<and> tokens \<lparr>connCh = 0, tokens = 10\<rparr> = 10 \<and> sint (10 :: go_int) \<le> 2 ^ 63 - 3
   \<and> (10 :: go_int) <s tokens (snd (putToken (snd (putToken \<lparr>connCh = 0, tokens = 10\<rparr>))))"
  using putToken_twice_above_max [of "\<lparr>connCh = 0, tokens = 10\<rparr>" 10]
  by (simp add: putToken_def)

text \<open>
  C7 as stated fails at the largest \<open>int\<close>: two releases from the count
  \<open>2^63 - 1\<close> wrap around to \<open>-(2^63 - 1)\<close>, which is not above it.
\<close>

theorem putToken_twice_wraps:
  "\<not> (0x7FFFFFFFFFFFFFFF :: go_int)
       <s tokens (snd (putToken (snd (putToken \<lparr>connCh = 0, tokens = 0x7FFFFFFFFFFFFFFF\<rparr>))))"
  by (simp add: putToken_def)

text \<open>
  C8. \<open>Dialer.pool\<close> on a key that the registry does not have (the map may be
  nil) allocates a pool at the next address, with \<open>MaxConnPerHost\<close> tokens, or 10
  when \<open>MaxConnPerHost\<close> is 0, enters it in the map (which now exists) and touches
  no other pool. On a key that the registry has, it returns the registered pool and
  changes nothing. So after a call, every later call for the same key, with calls
  for any keys in between, returns the same pool and leaves the store as it finds
  it; the pool just created is not changed by those calls.
\<close>

theorem Dialer_pool_once:
  assumes "Dialer_pool network address m = (p, m1)"
  shows "(lookup_conns m (NetAndAddr network address) = None \<longrightarrow>
            p = next_addr m
            \<and> heap m1 p = \<lparr>connCh = p,
                 tokens = (if MaxConnPerHost (dialer m) = 0 then 10 else MaxConnPerHost (dialer m))\<rparr>
            \<and> conns (dialer m1)
                 = Some ((case conns (dialer m) of None \<Rightarrow> Map.empty | Some cs \<Rightarrow> cs)
                           (NetAndAddr network address \<mapsto> p))
            \<and> MaxConnPerHost (dialer m1) = MaxConnPerHost (dialer m)
            \<and> next_addr m1 = Suc p
            \<and> (\<forall>q. q \<noteq> p \<longrightarrow> heap m1 q = heap m q)
            \<and> (\<forall>ks. heap (pool_calls ks m1) p = heap m1 p))
       \<and> (\<forall>q. lookup_conns m (NetAndAddr network address) = Some q \<longrightarrow> p = q \<and> m1 = m)
       \<and> lookup_conns m1 (NetAndAddr network address) = Some p
       \<and> (\<forall>ks. Dialer_pool network address (pool_calls ks m1) = (p, pool_calls ks m1))"
proof -
  let ?k = "NetAndAddr network address"
  have l: "lookup_conns m1 ?k = Some p"
  proof (cases "lookup_conns m ?k")
    case None
    then show ?thesis using assms
      by (auto simp: Dialer_pool_new [OF None] lookup_conns_def)
  next
    case (Some q)
    then show ?thesis using assms by (simp add: Dialer_pool_old)
  qed
  have later: "Dialer_pool network address (pool_calls ks m1) = (p, pool_calls ks m1)" for ks
    by (rule Dialer_pool_old [OF pool_calls_lookup [OF l]])
  have old: "p = q \<and> m1 = m" if "lookup_conns m ?k = Some q" for q
    using that assms by (simp add: Dialer_pool_old)
  have new: "p = next_addr m
            \<and> heap m1 p = \<lparr>connCh = p,
                 tokens = (if MaxConnPerHost (dialer m) = 0 then 10 else MaxConnPerHost (dialer m))\<rparr>
            \<and> conns (dialer m1)
                 = Some ((case conns (dialer m) of None \<Rightarrow> Map.empty | Some cs \<Rightarrow> cs)
                           (NetAndAddr network address \<mapsto> p))
            \<and> MaxConnPerHost (dialer m1) = MaxConnPerHost (dialer m)
            \<and> next_addr m1 = Suc p
            \<and> (\<forall>q. q \<noteq> p \<longrightarrow> heap m1 q = heap m q)
            \<and> (\<forall>ks. heap (pool_calls ks m1) p = heap m1 p)"
    if n: "lookup_conns m ?k = None"
  proof -
    have e: "p = next_addr m" "next_addr m1 = Suc p" using assms
      by (auto simp: Dialer_pool_new [OF n])
    then have "p < next_addr m1" by simp
    then have "heap (pool_calls ks m1) p = heap m1 p" for ks
      using pool_calls_keep [OF l] by simp
    then show ?thesis using assms
      by (auto simp: Dialer_pool_new [OF n] DefaultMaxConnsPerHost_def)
  qed
  show ?thesis using l later old new by blast
qed

theorem Dialer_pool_once_witness:
  "Dialer_pool ''tcp'' ''example.org:80'' (new_mem 0) = (0, one_pool 0 10)
   \<and> conns (dialer (new_mem 0)) = None
   \<and> lookup_conns (new_mem 0) (NetAndAddr ''tcp'' ''example.org:80'') = None
   \<and> heap (one_pool 0 10) 0 = \<lparr>connCh = 0, tokens = 10\<rparr>
   \<and> next_addr (one_pool 0 10) = 1
   \<and> lookup_conns (one_pool 0 10) (NetAndAddr ''tcp'' ''example.org:80'') = Some 0
   \<and> Dialer_pool ''tcp'' ''example.org:80'' (one_pool 0 10) = (0, one_pool 0 10)
   \<and> Dialer_pool ''tcp'' ''example.org:80''
          (pool_calls [(''udp'', ''example.net:53'')] (one_pool 0 10))
        = (0, pool_calls [(''udp'', ''example.net:53'')] (one_pool 0 10))
   \<and> heap (pool_calls [(''udp'', ''example.net:53'')] (one_pool 0 10)) 0
        = \<lparr>connCh = 0, tokens = 10\<rparr>"
proof -
  have h: "Dialer_pool ''tcp'' ''example.org:80'' (new_mem 0) = (0, one_pool 0 10)"
    by (simp add: new_mem_pool DefaultMaxConnsPerHost_def)
  have n: "lookup_conns (new_mem 0) (NetAndAddr ''tcp'' ''example.org:80'') = None"
    by (simp add: new_mem_def lookup_conns_def)
  have h2: "Dialer_pool ''tcp'' ''example.org:80'' (one_pool 0 10) = (0, one_pool 0 10)"
    by (rule one_pool_simps)
  show ?thesis
    using Dialer_pool_once [OF h] Dialer_pool_once [OF h2] h n
    by (simp add: new_mem_def one_pool_simps del: pool_calls.simps)
qed

text \<open>
  C9. The pool resolved by \<open>Dial\<close> has a positive count and the raw dial succeeds
  with \<open>c\<close>: \<open>Dial\<close> returns the connection wrapping \<open>c\<close> for that pool, for every
  schedule and with the schedule untouched (no round of the loop runs), and the
  count is one less.
\<close>

theorem Dial_immediate:
  assumes "Dialer_pool network address m = (p, m1)"
    and "0 <s tokens (heap m1 p)"
    and "d network address w = (Inr c, w1)"
  shows "Dial network address d evs (m, w) =
           Some ((Some \<lparr>Conn = c, pool = p\<rparr>, None), evs,
                 (m1\<lparr>heap := (heap m1)(p := (heap m1 p)\<lparr>tokens := tokens (heap m1 p) - 1\<rparr>)\<rparr>,
                  w1))"
  using assms by (simp add: maybeDial_ok_pos Dial_def)

theorem Dial_immediate_witness:
  "Dialer_pool ''tcp'' ''example.org:80'' (one_pool 2 2) = (0, one_pool 2 2)
   \<and> 0 <s tokens (heap (one_pool 2 2) 0)
   \<and> dial_ok ''tcp'' ''example.org:80'' transport0 = (Inr 0, transport0\<lparr>dialed := 1\<rparr>)
   \<and> Dial ''tcp'' ''example.org:80'' dial_ok [] (one_pool 2 2, transport0)
        = Some ((Some \<lparr>Conn = 0, pool = 0\<rparr>, None), [],
                (one_pool 2 1, transport0\<lparr>dialed := 1\<rparr>))"
proof -
  have h1: "Dialer_pool ''tcp'' ''example.org:80'' (one_pool 2 2) = (0, one_pool 2 2)"
    by (rule one_pool_simps)
  have h2: "0 <s tokens (heap (one_pool 2 2) 0)"
    by (simp add: one_pool_simps word_sless_alt)
  have h3: "dial_ok ''tcp'' ''example.org:80'' transport0 = (Inr 0, transport0\<lparr>dialed := 1\<rparr>)"
    by (simp add: dial_ok_def transport0_def)
  show ?thesis
    using Dial_immediate [where m = "one_pool 2 2" and p = 0 and ?m1.0 = "one_pool 2 2"
        and d = dial_ok and network = "''tcp''" and address = "''example.org:80''"
        and w = transport0 and c = 0 and ?w1.0 = "transport0\<lparr>dialed := 1\<rparr>"
        and evs = "[]"]
      h1 h2 h3
    by (simp add: one_pool_tokens_update one_pool_simps)
qed




end
